theory Spec2Isabelle
  imports Main "HOL-Library.Word" "HOL-Library.Signed_Division"
begin

section \<open>Standard input and C strings\<close>

text \<open>
  Standard input is the list of characters not yet read; the empty list is end of input.
  A C buffer is the list of its bytes up to and including the terminator that
  \<open>fgets\<close> writes; the string it holds ends before the first NUL.
\<close>

abbreviation NUL :: char where "NUL \<equiv> CHR 0x00"
abbreviation LF :: char where "LF \<equiv> CHR 0x0A"

abbreviation MAX_PLAYER_NAME :: nat where "MAX_PLAYER_NAME \<equiv> 20"
abbreviation MAX_CHOICE_ATTEMPTS :: nat where "MAX_CHOICE_ATTEMPTS \<equiv> 5"
abbreviation MAX_CHOICE_INPUT_LENGTH :: nat where "MAX_CHOICE_INPUT_LENGTH \<equiv> 9"

definition c_string :: "char list \<Rightarrow> char list" where
  "c_string buf = takeWhile (\<lambda>c. c \<noteq> NUL) buf"

definition strlen :: "char list \<Rightarrow> nat" where
  "strlen buf = length (c_string buf)"

text \<open>\<open>strcmp(a, b) == 0\<close>: the two strings agree up to their terminators.\<close>

definition strcmp_eq :: "char list \<Rightarrow> char list \<Rightarrow> bool" where
  "strcmp_eq a b = (c_string a = c_string b)"

text \<open>\<open>tolower\<close> in the C locale (the program never calls \<open>setlocale\<close>).\<close>

definition tolower :: "char \<Rightarrow> char" where
  "tolower c = (let k = (of_char c :: nat) in if 65 \<le> k \<and> k \<le> 90 then char_of (k + 32) else c)"

text \<open>
  \<open>fgets_read k inp\<close> takes at most \<open>k\<close> characters and stops after a line feed.
  \<open>fgets count inp\<close> is \<open>None\<close> when the C function returns the null pointer (end of
  input before any character), and otherwise the buffer with its terminator and the rest
  of the input.
\<close>

fun fgets_read :: "nat \<Rightarrow> char list \<Rightarrow> char list \<times> char list" where
  "fgets_read 0 inp = ([], inp)"
| "fgets_read (Suc k) [] = ([], [])"
| "fgets_read (Suc k) (c # cs) =
     (if c = LF then ([c], cs)
      else (case fgets_read k cs of (b, r) \<Rightarrow> (c # b, r)))"

definition fgets :: "nat \<Rightarrow> char list \<Rightarrow> (char list \<times> char list) option" where
  "fgets count inp =
     (if inp = [] then None
      else (case fgets_read (count - 1) inp of (b, r) \<Rightarrow> Some (b @ [NUL], r)))"

text \<open>\<open>while (((a = getchar()) != '\n') && (a != EOF));\<close>\<close>

fun clearInputBuffer :: "char list \<Rightarrow> char list" where
  "clearInputBuffer [] = []"
| "clearInputBuffer (a # inp) = (if a = LF then inp else clearInputBuffer inp)"

text \<open>
  The statements that follow both calls of \<open>fgets\<close> (on \<open>playerName\<close> in \<open>main\<close> and
  on \<open>tempPlayerChoice\<close> in \<open>getPlayerChoice\<close>): take the length, then either
  overwrite a final line feed with the terminator or clear the input buffer. The result is
  the buffer, the length taken before the overwrite, and the remaining input.
  When \<open>fgets\<close> returns the null pointer the source goes on to read a buffer it never
  initialised; the model stops there with \<open>None\<close>.
\<close>

definition fgets_trimmed :: "nat \<Rightarrow> char list \<Rightarrow> (char list \<times> nat \<times> char list) option" where
  "fgets_trimmed count inp =
     (case fgets count inp of
        None \<Rightarrow> None
      | Some (buf, rest) \<Rightarrow>
          (let len = strlen buf in
           if 0 < len \<and> buf ! (len - 1) = LF
           then Some (buf[len - 1 := NUL], len, rest)
           else Some (buf, len, clearInputBuffer rest)))"

section \<open>Output\<close>

text \<open>
  The trace records what the program writes and the one process it spawns. Blank lines
  written with \<open>putchar\<close> and the \<open>usleep\<close> delays are not recorded. The three art
  tables are named, not spelled out; \<open>vs\<close> is always the middle one.
\<close>

datatype art = stone | paper | scissors

datatype event =
    Printf string
  | Stderr string
  | AsciiArt art art
  | Scoreboard string int int
  | Figlet string int int bool

section \<open>Reading the player's choice\<close>

datatype choice_result =
    Returned int "char list"
  | Exited int
  | Indeterminate

text \<open>
  One pass through the body of the \<open>for\<close> loop of \<open>getPlayerChoice\<close>:
  \<open>Some (Some v, rest)\<close> when it returns \<open>v\<close>, \<open>Some (None, rest)\<close> when it prints
  "Invalid Choice...".
\<close>

definition choice_attempt :: "char list \<Rightarrow> (int option \<times> char list) option" where
  "choice_attempt inp =
     (case fgets_trimmed MAX_CHOICE_INPUT_LENGTH inp of
        None \<Rightarrow> None
      | Some (buf, len, rest) \<Rightarrow>
          (let tempPlayerChoice = map tolower (take len buf) @ drop len buf in
           if strcmp_eq tempPlayerChoice ''stone'' then Some (Some 1, rest)
           else if strcmp_eq tempPlayerChoice ''paper'' then Some (Some 2, rest)
           else if strcmp_eq tempPlayerChoice ''scissors'' then Some (Some 3, rest)
           else Some (None, rest)))"

function getPlayerChoice_from :: "nat \<Rightarrow> char list \<Rightarrow> event list \<times> choice_result" where
  "getPlayerChoice_from i inp =
     (if i < MAX_CHOICE_ATTEMPTS then
        (case choice_attempt inp of
           None \<Rightarrow> ([Printf ''Stone, Paper or Scissors: ''], Indeterminate)
         | Some (Some v, rest) \<Rightarrow> ([Printf ''Stone, Paper or Scissors: ''], Returned v rest)
         | Some (None, rest) \<Rightarrow>
             (case getPlayerChoice_from (i + 1) rest of
                (es, r) \<Rightarrow>
                  (Printf ''Stone, Paper or Scissors: '' # Printf (''Invalid Choice...'' @ [LF]) # es, r)))
      else ([Printf (''Too many invalid inputs...'' @ [LF])], Exited 1))"
  by pat_completeness auto
termination
  by (relation "measure (\<lambda>(i, inp). MAX_CHOICE_ATTEMPTS - i)") auto

definition getPlayerChoice :: "char list \<Rightarrow> event list \<times> choice_result" where
  "getPlayerChoice inp = getPlayerChoice_from 0 inp"

section \<open>One round\<close>

text \<open>
  The counters of \<open>main\<close>. \<open>wins_needed\<close> is the variable \<open>n\<close> of the source.
  The counters never leave the range of a C \<open>int\<close>: each is incremented only while it is
  below \<open>n\<close>, so they are unbounded integers here.
\<close>

record match_state =
  playerWins :: int
  computerWins :: int
  wins_needed :: int

datatype RoundOutcome = PlayerWin | ComputerWin | Tie

text \<open>
  \<open>rand() % (max - min + 1) + min\<close>, where \<open>r\<close> is the value \<open>rand()\<close> returned
  (never negative). The parameters are \<open>min\<close> and \<open>max\<close> in the source.
\<close>

definition randomNumber :: "int \<Rightarrow> int \<Rightarrow> nat \<Rightarrow> int" where
  "randomNumber lo hi r = int r smod (hi - lo + 1) + lo"

text \<open>
  The decision chain of the loop body, branch for branch: the two art tables handed to
  \<open>asciiArtPrinter\<close> and the counter that is incremented (\<open>PlayerWin\<close> for
  \<open>playerWins++\<close>, \<open>ComputerWin\<close> for \<open>computerWins++\<close>, \<open>Tie\<close> for neither).
\<close>

definition resolve :: "int \<Rightarrow> int \<Rightarrow> (art \<times> art) \<times> RoundOutcome" where
  "resolve playerChoice computerChoice =
     (if playerChoice = 1 then
        (if computerChoice = 1 then ((stone, stone), Tie)
         else if computerChoice = 2 then ((stone, paper), ComputerWin)
         else ((stone, scissors), PlayerWin))
      else if playerChoice = 2 then
        (if computerChoice = 1 then ((paper, stone), PlayerWin)
         else if computerChoice = 2 then ((paper, paper), Tie)
         else ((paper, scissors), ComputerWin))
      else
        (if computerChoice = 1 then ((scissors, stone), ComputerWin)
         else if computerChoice = 2 then ((scissors, paper), PlayerWin)
         else ((scissors, scissors), Tie)))"

fun score :: "RoundOutcome \<Rightarrow> match_state \<Rightarrow> match_state" where
  "score PlayerWin s = s\<lparr>playerWins := playerWins s + 1\<rparr>"
| "score ComputerWin s = s\<lparr>computerWins := computerWins s + 1\<rparr>"
| "score Tie s = s"

definition play_round :: "int \<Rightarrow> int \<Rightarrow> match_state \<Rightarrow> match_state" where
  "play_round playerChoice computerChoice s = score (snd (resolve playerChoice computerChoice)) s"

section \<open>The banner process\<close>

text \<open>
  What \<open>fork\<close> and \<open>waitpid\<close> report: the fork failed, the child exited with a status
  (a failed \<open>execvp\<close> is the child's \<open>_exit(1)\<close>), or the child did not exit normally.
  \<open>wait_child\<close> is the code after \<open>fork\<close> in the parent: what it writes to standard
  error, and \<open>Some\<close> of the value \<open>main\<close> returns there, or \<open>None\<close> when control
  falls through to the loop condition.
\<close>

datatype child_status = Fork_failed | Child_exited nat | Child_abnormal

definition wait_child :: "child_status \<Rightarrow> event list \<times> int option" where
  "wait_child child =
     (case child of
        Fork_failed \<Rightarrow> ([Stderr ''Fork failed''], Some 1)
      | Child_exited st \<Rightarrow>
          (if st \<noteq> 0 then ([Stderr ''Child process failed to execute with status''], Some 1)
           else ([], None))
      | Child_abnormal \<Rightarrow> ([Stderr ''Child process terminated abnormally''], Some 1))"

section \<open>The match loop\<close>

text \<open>
  How a run ends: \<open>main\<close> returns a value, \<open>exit\<close> is called, or the program reads a
  buffer that \<open>fgets\<close> left untouched at end of input.
\<close>

datatype ending = Main_returned int | Exit_called int | Undefined_read

record run =
  run_end :: ending
  run_trace :: "event list"
  run_state :: match_state

text \<open>
  The \<open>while\<close> loop of \<open>main\<close>. \<open>rand k\<close> is the value of the \<open>k\<close>-th call of
  \<open>rand()\<close>, \<open>child\<close> what becomes of the banner process. Each pass reads the player's
  choice, draws the computer's, prints the art and scores the round; then it prints the
  scoreboard, or builds \<open>winMessage\<close> (the flag of \<open>Figlet\<close> tells whether the player's
  name is the winner in it) and forks.
\<close>

function match_loop ::
  "(nat \<Rightarrow> nat) \<Rightarrow> child_status \<Rightarrow> string \<Rightarrow> nat \<Rightarrow> match_state \<Rightarrow> char list \<Rightarrow> run" where
  "match_loop rand child playerName k s inp =
     (if playerWins s < wins_needed s \<and> computerWins s < wins_needed s then
        (case getPlayerChoice inp of
           (es, Indeterminate) \<Rightarrow> \<lparr>run_end = Undefined_read, run_trace = es, run_state = s\<rparr>
         | (es, Exited c) \<Rightarrow> \<lparr>run_end = Exit_called c, run_trace = es, run_state = s\<rparr>
         | (es, Returned playerChoice rest) \<Rightarrow>
             (let computerChoice = randomNumber 1 3 (rand k);
                  arts = fst (resolve playerChoice computerChoice);
                  s' = play_round playerChoice computerChoice s
              in if playerWins s' \<noteq> wins_needed s' \<and> computerWins s' \<noteq> wins_needed s' then
                   (let r = match_loop rand child playerName (k + 1) s' rest in
                    r\<lparr>run_trace :=
                        es @ [AsciiArt (fst arts) (snd arts),
                              Scoreboard playerName (playerWins s') (computerWins s')]
                           @ run_trace r\<rparr>)
                 else
                   (let final =
                          es @ [AsciiArt (fst arts) (snd arts),
                                Printf (''.'' @ [LF]), Printf (''..'' @ [LF]), Printf (''...'' @ [LF]),
                                Figlet playerName (playerWins s') (computerWins s')
                                  (playerWins s' = wins_needed s')]
                    in case wait_child child of
                         (errs, Some code) \<Rightarrow>
                           \<lparr>run_end = Main_returned code, run_trace = final @ errs, run_state = s'\<rparr>
                       | (errs, None) \<Rightarrow>
                           (let r = match_loop rand child playerName (k + 1) s' rest in
                            r\<lparr>run_trace := final @ errs @ run_trace r\<rparr>))))
      else \<lparr>run_end = Main_returned 0, run_trace = [], run_state = s\<rparr>)"
  by pat_completeness auto

section \<open>The program\<close>

text \<open>
  Lines 205 to 216 of \<open>main\<close>: the name is the string left in \<open>playerName\<close>, given
  with the input that remains for the next read.
\<close>

definition read_playerName :: "char list \<Rightarrow> (string \<times> char list) option" where
  "read_playerName inp =
     (case fgets_trimmed MAX_PLAYER_NAME inp of
        None \<Rightarrow> None
      | Some (playerName, len, rest) \<Rightarrow> Some (c_string playerName, rest))"

text \<open>
  \<open>scanf("%i", &bestOf)\<close> belongs to the C library: \<open>scanf_i\<close> gives, for the input
  it finds, the value \<open>scanf\<close> returns, the 32-bit value it stores in \<open>bestOf\<close> (read only
  when the returned value is 1) and the input it leaves. \<open>rejected\<close> is the test of line 238,
  \<open>(bestOf % 2 == 0) || (bestOf < 0)\<close>, and \<open>wins_for\<close> the value of line 246,
  \<open>(bestOf + 1) / 2\<close>. \<open>bestOf + 1\<close> is the addition of the machine, which wraps
  around (C leaves the overflow undefined); \<open>%\<close> and \<open>/\<close> truncate towards zero.
\<close>

definition wins_for :: "32 word \<Rightarrow> int" where
  "wins_for bestOf = sint (bestOf + 1) sdiv 2"

definition rejected :: "32 word \<Rightarrow> bool" where
  "rejected bestOf = (sint bestOf smod 2 = 0 \<or> sint bestOf < 0)"

definition main ::
  "(char list \<Rightarrow> int \<times> 32 word \<times> char list) \<Rightarrow> (nat \<Rightarrow> nat) \<Rightarrow> child_status \<Rightarrow> char list
     \<Rightarrow> ending \<times> event list" where
  "main scanf_i rand child inp =
     (case read_playerName inp of
        None \<Rightarrow> (Undefined_read, [Printf ''Player name: ''])
      | Some (playerName, inp1) \<Rightarrow>
          (let (scanResult, bestOf, inp2) = scanf_i inp1;
               inp3 = clearInputBuffer inp2;
               prompts = [Printf ''Player name: '', Printf ''Best of: '']
           in if scanResult \<noteq> 1 then
                (Main_returned 1, prompts @ [Printf (''Invalid input...'' @ [LF, LF])])
              else if rejected bestOf then
                (Main_returned 1,
                 prompts @ [Printf (''Only positive odd integers are valid...'' @ [LF, LF])])
              else
                (let n = wins_for bestOf;
                     r = match_loop rand child playerName 0
                           \<lparr>playerWins = 0, computerWins = 0, wins_needed = n\<rparr> inp3
                 in (run_end r, prompts @ run_trace r))))"

section \<open>Vocabulary of the properties\<close>

text \<open>
  The moves and their codes, as the source documents them: \<open>getPlayerChoice\<close> returns
  1 for "Stone", 2 for "Paper", 3 for "Scissors", and the computer's choice uses the same
  codes.
\<close>

datatype Move = Stone | Paper | Scissors

fun choice_of :: "Move \<Rightarrow> int" where
  "choice_of Stone = 1"
| "choice_of Paper = 2"
| "choice_of Scissors = 3"

text \<open>
  The standard rule in the words of the specification: Stone beats Scissors, Scissors
  beats Paper, Paper beats Stone.
\<close>

fun standard_rule_beats :: "Move \<Rightarrow> Move \<Rightarrow> bool" where
  "standard_rule_beats Stone Scissors = True"
| "standard_rule_beats Scissors Paper = True"
| "standard_rule_beats Paper Stone = True"
| "standard_rule_beats m1 m2 = False"

text \<open>The word that the comparisons of \<open>getPlayerChoice\<close> accept, and its code.\<close>

definition choice_of_word :: "char list \<Rightarrow> int option" where
  "choice_of_word w =
     (if w = ''stone'' then Some 1 else if w = ''paper'' then Some 2
      else if w = ''scissors'' then Some 3 else None)"

text \<open>
  Reading a trace. A round is one call of \<open>asciiArtPrinter\<close>; it is decisive when the two
  moves shown differ. The reports of a match are the art of each round, the scoreboard
  lines and the final announcement; \<open>reports_ok n\<close> holds of a sequence of reports in
  which every round is followed at once by a scoreboard line with both counters below
  \<open>n\<close>, except that the last round may instead be followed by the announcement, with a
  counter equal to \<open>n\<close> and nothing after it.
\<close>

fun is_round :: "event \<Rightarrow> bool" where
  "is_round (AsciiArt a b) = True"
| "is_round e = False"

fun decisive :: "event \<Rightarrow> bool" where
  "decisive (AsciiArt a b) = (a \<noteq> b)"
| "decisive e = False"

definition rounds :: "event list \<Rightarrow> nat" where
  "rounds tr = length (filter is_round tr)"

definition decisive_rounds :: "event list \<Rightarrow> nat" where
  "decisive_rounds tr = length (filter decisive tr)"

fun report :: "event \<Rightarrow> bool" where
  "report (AsciiArt a b) = True"
| "report (Scoreboard nm p c) = True"
| "report (Figlet nm p c w) = True"
| "report e = False"


text \<open>
  A \<open>scanf\<close> for an input whose next line is a numeral of value \<open>v\<close>: it returns 1,
  stores \<open>v\<close> and leaves the line feed. It stands for the C library where a run of
  \<open>main\<close> is evaluated.
\<close>

definition scanf_number :: "32 word \<Rightarrow> char list \<Rightarrow> int \<times> 32 word \<times> char list" where
  "scanf_number v inp = (1, v, dropWhile (\<lambda>c. c \<noteq> LF) inp)"

section \<open>Termination of the match loop on finite input\<close>

lemma fgets_read_shorter:
  "fgets_read (Suc k) inp = (b, r) \<Longrightarrow> inp \<noteq> [] \<Longrightarrow> length r < length inp"
proof (induction k arbitrary: inp b r)
  case 0
  then show ?case by (cases inp) (auto split: if_splits)
next
  case (Suc k)
  then obtain c cs where inp: "inp = c # cs" by (cases inp) auto
  show ?case
  proof (cases "c = LF \<or> cs = []")
    case True
    with Suc.prems inp show ?thesis by (auto split: if_splits prod.splits)
  next
    case False
    obtain b' r' where fr: "fgets_read (Suc k) cs = (b', r')" by (cases "fgets_read (Suc k) cs")
    with False Suc.IH have "length r' < length cs" by blast
    with Suc.prems inp False fr show ?thesis by (auto split: if_splits)
  qed
qed

lemma clearInputBuffer_length: "length (clearInputBuffer inp) \<le> length inp"
  by (induction inp) auto

lemma fgets_trimmed_shorter:
  "fgets_trimmed (Suc (Suc k)) inp = Some (buf, len, rest) \<Longrightarrow> length rest < length inp"
proof -
  assume a: "fgets_trimmed (Suc (Suc k)) inp = Some (buf, len, rest)"
  then have ne: "inp \<noteq> []" by (auto simp: fgets_trimmed_def fgets_def)
  obtain b r where fr: "fgets_read (Suc k) inp = (b, r)" by (cases "fgets_read (Suc k) inp")
  from fr ne have lt: "length r < length inp" by (rule fgets_read_shorter)
  from a ne fr have "rest = r \<or> rest = clearInputBuffer r"
    by (auto simp: fgets_trimmed_def fgets_def Let_def split: if_splits)
  with lt clearInputBuffer_length [of r] show ?thesis by auto
qed

lemma choice_attempt_shorter:
  "choice_attempt inp = Some (v, rest) \<Longrightarrow> length rest < length inp"
proof -
  assume a: "choice_attempt inp = Some (v, rest)"
  have nine: "MAX_CHOICE_INPUT_LENGTH = Suc (Suc 7)" by simp
  from a obtain buf len where "fgets_trimmed (Suc (Suc 7)) inp = Some (buf, len, rest)"
    unfolding choice_attempt_def nine
    by (auto simp: Let_def split: option.splits if_splits)
  then show ?thesis by (rule fgets_trimmed_shorter)
qed

lemma getPlayerChoice_from_shorter:
  "getPlayerChoice_from i inp = (es, Returned v rest) \<Longrightarrow> length rest < length inp"
proof (induction i inp arbitrary: es rule: getPlayerChoice_from.induct)
  case (1 i inp)
  show ?case
  proof (cases "i < MAX_CHOICE_ATTEMPTS")
    case False
    with "1.prems" show ?thesis by simp
  next
    case True
    show ?thesis
    proof (cases "choice_attempt inp")
      case None
      with True "1.prems" show ?thesis by simp
    next
      case (Some p)
      obtain x rest' where p: "p = (x, rest')" by (cases p)
      with Some have lt: "length rest' < length inp" by (auto dest: choice_attempt_shorter)
      show ?thesis
      proof (cases x)
        case (Some w)
        with True \<open>choice_attempt inp = Some p\<close> p "1.prems" lt show ?thesis by simp
      next
        case None
        obtain es' r' where rec: "getPlayerChoice_from (i + 1) rest' = (es', r')"
          by (cases "getPlayerChoice_from (i + 1) rest'")
        with True \<open>choice_attempt inp = Some p\<close> p None "1.prems"
        have "r' = Returned v rest" by simp
        with rec "1.IH" [OF True \<open>choice_attempt inp = Some p\<close> p [symmetric] None] 
        have "length rest < length rest'" by simp
        with lt show ?thesis by simp
      qed
    qed
  qed
qed

lemma getPlayerChoice_shorter:
  "getPlayerChoice inp = (es, Returned v rest) \<Longrightarrow> length rest < length inp"
  unfolding getPlayerChoice_def by (rule getPlayerChoice_from_shorter)

termination match_loop
proof (relation "measure (\<lambda>(rand, child, playerName, k, s, inp). length inp)")
  show "wf (measure (\<lambda>(rand, child, playerName, k, s, inp). length inp))" by simp
qed (auto dest: getPlayerChoice_shorter [OF sym])

section \<open>Unfolding the match loop\<close>

declare match_loop.simps [simp del]

lemma play_round_cases:
  "play_round p c s = s \<or> play_round p c s = s\<lparr>playerWins := playerWins s + 1\<rparr>
     \<or> play_round p c s = s\<lparr>computerWins := computerWins s + 1\<rparr>"
  by (cases "snd (resolve p c)") (simp_all add: play_round_def)

lemma match_loop_stop:
  assumes "\<not> (playerWins s < wins_needed s \<and> computerWins s < wins_needed s)"
  shows "match_loop rand child playerName k s inp =
           \<lparr>run_end = Main_returned 0, run_trace = [], run_state = s\<rparr>"
  by (subst match_loop.simps) (simp only: assms if_False)

lemma match_loop_indeterminate:
  assumes "playerWins s < wins_needed s \<and> computerWins s < wins_needed s"
    and "getPlayerChoice inp = (es, Indeterminate)"
  shows "match_loop rand child playerName k s inp =
           \<lparr>run_end = Undefined_read, run_trace = es, run_state = s\<rparr>"
  by (subst match_loop.simps) (simp add: assms)

lemma match_loop_exit:
  assumes "playerWins s < wins_needed s \<and> computerWins s < wins_needed s"
    and "getPlayerChoice inp = (es, Exited c)"
  shows "match_loop rand child playerName k s inp =
           \<lparr>run_end = Exit_called c, run_trace = es, run_state = s\<rparr>"
  by (subst match_loop.simps) (simp add: assms)

lemma match_loop_continue:
  assumes "playerWins s < wins_needed s \<and> computerWins s < wins_needed s"
    and "getPlayerChoice inp = (es, Returned playerChoice rest)"
    and "s' = play_round playerChoice (randomNumber 1 3 (rand k)) s"
    and "playerWins s' \<noteq> wins_needed s' \<and> computerWins s' \<noteq> wins_needed s'"
  shows "match_loop rand child playerName k s inp =
           (match_loop rand child playerName (k + 1) s' rest)
             \<lparr>run_trace :=
                es @ [AsciiArt (fst (fst (resolve playerChoice (randomNumber 1 3 (rand k)))))
                        (snd (fst (resolve playerChoice (randomNumber 1 3 (rand k))))),
                      Scoreboard playerName (playerWins s') (computerWins s')]
                   @ run_trace (match_loop rand child playerName (k + 1) s' rest)\<rparr>"
  using assms(4) unfolding assms(3)
  by (subst match_loop.simps) (simp add: assms(1,2) Let_def)

lemma match_loop_final:
  assumes "playerWins s < wins_needed s \<and> computerWins s < wins_needed s"
    and "getPlayerChoice inp = (es, Returned playerChoice rest)"
    and "s' = play_round playerChoice (randomNumber 1 3 (rand k)) s"
    and "\<not> (playerWins s' \<noteq> wins_needed s' \<and> computerWins s' \<noteq> wins_needed s')"
  shows "match_loop rand child playerName k s inp =
           \<lparr>run_end = Main_returned (case snd (wait_child child) of None \<Rightarrow> 0 | Some code \<Rightarrow> code),
            run_trace =
              es @ [AsciiArt (fst (fst (resolve playerChoice (randomNumber 1 3 (rand k)))))
                      (snd (fst (resolve playerChoice (randomNumber 1 3 (rand k))))),
                    Printf (''.'' @ [LF]), Printf (''..'' @ [LF]), Printf (''...'' @ [LF]),
                    Figlet playerName (playerWins s') (computerWins s')
                      (playerWins s' = wins_needed s')]
                 @ fst (wait_child child),
            run_state = s'\<rparr>"
proof -
  have stop: "\<not> (playerWins s' < wins_needed s' \<and> computerWins s' < wins_needed s')"
    using assms(4) by auto
  obtain errs code where w: "wait_child child = (errs, code)" by (cases "wait_child child")
  show ?thesis
    using assms(4) unfolding assms(3)
    by (subst match_loop.simps)
       (auto simp add: assms(1,2) Let_def w match_loop_stop [OF stop [unfolded assms(3)]]
             split: option.splits)
qed

lemma match_loop_cases [consumes 0, case_names stop indeterminate exit continue final]:
  assumes "\<And>k s inp. \<not> (playerWins s < wins_needed s \<and> computerWins s < wins_needed s) \<Longrightarrow> P k s inp"
    and "\<And>k s inp es. playerWins s < wins_needed s \<and> computerWins s < wins_needed s \<Longrightarrow>
          getPlayerChoice inp = (es, Indeterminate) \<Longrightarrow> P k s inp"
    and "\<And>k s inp es c. playerWins s < wins_needed s \<and> computerWins s < wins_needed s \<Longrightarrow>
          getPlayerChoice inp = (es, Exited c) \<Longrightarrow> P k s inp"
    and "\<And>k s inp es playerChoice rest s'.
          playerWins s < wins_needed s \<and> computerWins s < wins_needed s \<Longrightarrow>
          getPlayerChoice inp = (es, Returned playerChoice rest) \<Longrightarrow>
          s' = play_round playerChoice (randomNumber 1 3 (rand k)) s \<Longrightarrow>
          playerWins s' \<noteq> wins_needed s' \<and> computerWins s' \<noteq> wins_needed s' \<Longrightarrow>
          P (k + 1) s' rest \<Longrightarrow> P k s inp"
    and "\<And>k s inp es playerChoice rest s'.
          playerWins s < wins_needed s \<and> computerWins s < wins_needed s \<Longrightarrow>
          getPlayerChoice inp = (es, Returned playerChoice rest) \<Longrightarrow>
          s' = play_round playerChoice (randomNumber 1 3 (rand k)) s \<Longrightarrow>
          \<not> (playerWins s' \<noteq> wins_needed s' \<and> computerWins s' \<noteq> wins_needed s') \<Longrightarrow>
          P k s inp"
  shows "P k s inp"
proof (induction inp arbitrary: k s rule: length_induct)
  case (1 inp)
  show ?case
  proof (cases "playerWins s < wins_needed s \<and> computerWins s < wins_needed s")
    case False
    then show ?thesis by (rule assms(1))
  next
    case True
    obtain es res where g: "getPlayerChoice inp = (es, res)" by (cases "getPlayerChoice inp")
    show ?thesis
    proof (cases res)
      case Indeterminate
      with True g show ?thesis by (auto intro: assms(2))
    next
      case (Exited c)
      with True g show ?thesis by (auto intro: assms(3))
    next
      case (Returned pc rest)
      define s' where "s' = play_round pc (randomNumber 1 3 (rand k)) s"
      from g Returned have g': "getPlayerChoice inp = (es, Returned pc rest)" by simp
      then have "length rest < length inp" by (rule getPlayerChoice_shorter)
      with 1 have ih: "P (k + 1) s' rest" by blast
      show ?thesis
      proof (cases "playerWins s' \<noteq> wins_needed s' \<and> computerWins s' \<noteq> wins_needed s'")
        case True
        from \<open>playerWins s < wins_needed s \<and> computerWins s < wins_needed s\<close> g' s'_def True ih
        show ?thesis by (rule assms(4))
      next
        case False
        from \<open>playerWins s < wins_needed s \<and> computerWins s < wins_needed s\<close> g' s'_def False
        show ?thesis by (rule assms(5))
      qed
    qed
  qed
qed

section \<open>Properties of the match loop\<close>

lemma getPlayerChoice_from_prints:
  "getPlayerChoice_from i inp = (es, r) \<Longrightarrow> e \<in> set es \<Longrightarrow> \<exists>m. e = Printf m"
proof (induction i inp arbitrary: es r rule: getPlayerChoice_from.induct)
  case (1 i inp)
  show ?case
  proof (cases "i < MAX_CHOICE_ATTEMPTS")
    case False
    with "1.prems" show ?thesis by auto
  next
    case True
    show ?thesis
    proof (cases "choice_attempt inp")
      case None
      with True "1.prems" show ?thesis by auto
    next
      case (Some p)
      obtain x rest' where p: "p = (x, rest')" by (cases p)
      show ?thesis
      proof (cases x)
        case (Some w)
        with True \<open>choice_attempt inp = Some p\<close> p "1.prems" show ?thesis by auto
      next
        case None
        obtain es' r' where rec: "getPlayerChoice_from (i + 1) rest' = (es', r')"
          by (cases "getPlayerChoice_from (i + 1) rest'")
        with True \<open>choice_attempt inp = Some p\<close> p None "1.prems"
        have "e \<in> set es' \<or> (\<exists>m. e = Printf m)" by auto
        with rec "1.IH" [OF True \<open>choice_attempt inp = Some p\<close> p [symmetric] None]
        show ?thesis by blast
      qed
    qed
  qed
qed

lemma getPlayerChoice_prints:
  "getPlayerChoice inp = (es, r) \<Longrightarrow> e \<in> set es \<Longrightarrow> \<exists>m. e = Printf m"
  unfolding getPlayerChoice_def by (rule getPlayerChoice_from_prints)

lemma getPlayerChoice_no_report:
  assumes "getPlayerChoice inp = (es, r)"
  shows "filter report es = []" "filter decisive es = []" "filter is_round es = []"
  using getPlayerChoice_prints [OF assms] by (fastforce simp: filter_empty_conv)+

lemma wait_child_no_report:
  "filter report (fst (wait_child child)) = []"
  "filter decisive (fst (wait_child child)) = []"
  by (auto simp: wait_child_def split: child_status.splits)

lemma match_loop_wins_needed:
  "wins_needed (run_state (match_loop rand child playerName k s inp)) = wins_needed s"
proof (induction k s inp rule: match_loop_cases [where rand = rand])
  case (stop k s inp)
  then show ?case by (simp add: match_loop_stop [OF stop])
next
  case (indeterminate k s inp es)
  then show ?case by (simp add: match_loop_indeterminate [OF indeterminate])
next
  case (exit k s inp es c)
  then show ?case by (simp add: match_loop_exit [OF exit])
next
  case (continue k s inp es playerChoice rest s')
  have "wins_needed s' = wins_needed s"
    using play_round_cases [of playerChoice "randomNumber 1 3 (rand k)" s] continue(3) by auto
  with continue(5) show ?case by (simp add: match_loop_continue [where rand = rand and k = k, OF continue(1-4)])
next
  case (final k s inp es playerChoice rest s')
  have "wins_needed s' = wins_needed s"
    using play_round_cases [of playerChoice "randomNumber 1 3 (rand k)" s] final(3) by auto
  then show ?case by (simp add: match_loop_final [where rand = rand and k = k, OF final])
qed

lemma match_loop_invariant:
  assumes "playerWins s \<le> wins_needed s" "computerWins s \<le> wins_needed s"
    "\<not> (playerWins s = wins_needed s \<and> computerWins s = wins_needed s)"
  shows "playerWins (run_state (match_loop rand child playerName k s inp)) \<le> wins_needed s \<and>
     computerWins (run_state (match_loop rand child playerName k s inp)) \<le> wins_needed s \<and>
     \<not> (playerWins (run_state (match_loop rand child playerName k s inp)) = wins_needed s \<and>
        computerWins (run_state (match_loop rand child playerName k s inp)) = wins_needed s) \<and>
     ((\<exists>c. run_end (match_loop rand child playerName k s inp) = Main_returned c) \<longleftrightarrow>
        (playerWins (run_state (match_loop rand child playerName k s inp)) = wins_needed s \<or>
         computerWins (run_state (match_loop rand child playerName k s inp)) = wins_needed s))"
  using assms
proof (induction k s inp rule: match_loop_cases [where rand = rand])
  case (stop k s inp)
  then show ?case by (auto simp add: match_loop_stop [OF stop(1)])
next
  case (indeterminate k s inp es)
  then show ?case by (simp add: match_loop_indeterminate [OF indeterminate(1,2)])
next
  case (exit k s inp es c)
  then show ?case by (simp add: match_loop_exit [OF exit(1,2)])
next
  case (continue k s inp es playerChoice rest s')
  have *: "wins_needed s' = wins_needed s" "playerWins s' \<le> wins_needed s'"
    "computerWins s' \<le> wins_needed s'"
    using play_round_cases [of playerChoice "randomNumber 1 3 (rand k)" s] continue(1,3) by auto
  with continue(4) continue(5) show ?case
    by (simp add: match_loop_continue [where rand = rand and k = k, OF continue(1-4)])
next
  case (final k s inp es playerChoice rest s')
  have "wins_needed s' = wins_needed s \<and> playerWins s' \<le> wins_needed s' \<and>
    computerWins s' \<le> wins_needed s' \<and> \<not> (playerWins s' = wins_needed s' \<and> computerWins s' = wins_needed s')"
    using play_round_cases [of playerChoice "randomNumber 1 3 (rand k)" s] final(1,3) by auto
  with final(4) show ?case
    by (auto simp add: match_loop_final [where rand = rand and k = k, OF final(1-4)])
qed


lemma resolve_arts_differ:
  "fst (fst (resolve p c)) \<noteq> snd (fst (resolve p c)) \<longleftrightarrow> snd (resolve p c) \<noteq> Tie"
  by (simp add: resolve_def)

lemma play_round_sum:
  "playerWins (play_round p c s) + computerWins (play_round p c s) =
     playerWins s + computerWins s + (if fst (fst (resolve p c)) \<noteq> snd (fst (resolve p c)) then 1 else 0)"
  unfolding resolve_arts_differ by (cases "snd (resolve p c)") (simp_all add: play_round_def)

lemma match_loop_decisive:
  "int (decisive_rounds (run_trace (match_loop rand child playerName k s inp))) + playerWins s + computerWins s
     = playerWins (run_state (match_loop rand child playerName k s inp))
       + computerWins (run_state (match_loop rand child playerName k s inp))"
proof (induction k s inp rule: match_loop_cases [where rand = rand])
  case (stop k s inp)
  then show ?case by (simp add: match_loop_stop [OF stop(1)] decisive_rounds_def)
next
  case (indeterminate k s inp es)
  then show ?case
    by (simp add: match_loop_indeterminate [OF indeterminate(1,2)] getPlayerChoice_no_report decisive_rounds_def)
next
  case (exit k s inp es c)
  then show ?case by (simp add: match_loop_exit [OF exit(1,2)] getPlayerChoice_no_report decisive_rounds_def)
next
  case (continue k s inp es playerChoice rest s')
  with play_round_sum [of playerChoice "randomNumber 1 3 (rand k)" s] show ?case
    by (auto simp add: match_loop_continue [where rand = rand and k = k, OF continue(1-4)]
          getPlayerChoice_no_report [OF continue(2)] decisive_rounds_def)
next
  case (final k s inp es playerChoice rest s')
  with play_round_sum [of playerChoice "randomNumber 1 3 (rand k)" s] show ?case
    by (auto simp add: match_loop_final [where rand = rand and k = k, OF final(1-4)]
          getPlayerChoice_no_report [OF final(2)] wait_child_no_report decisive_rounds_def)
qed

section \<open>Properties of the line reader\<close>

lemma fgets_read_line:
  "LF \<notin> set line \<Longrightarrow>
   fgets_read k (line @ LF # rest) =
     (if length line < k then (line @ [LF], rest) else (take k line, drop k line @ LF # rest))"
proof (induction k arbitrary: line)
  case 0
  then show ?case by simp
next
  case (Suc k)
  then show ?case by (cases line) auto
qed

lemma fgets_read_eof:
  "LF \<notin> set line \<Longrightarrow> fgets_read k line = (take k line, drop k line)"
proof (induction k arbitrary: line)
  case 0
  then show ?case by simp
next
  case (Suc k)
  then show ?case by (cases line) auto
qed

lemma clearInputBuffer_line:
  "LF \<notin> set line \<Longrightarrow> clearInputBuffer (line @ LF # rest) = rest"
  by (induction line) auto

lemma clearInputBuffer_eof:
  "LF \<notin> set line \<Longrightarrow> clearInputBuffer line = []"
  by (induction line) auto

lemma c_string_terminated: "c_string (xs @ [NUL]) = c_string xs"
  by (induction xs) (auto simp: c_string_def)

lemma c_string_no_NUL: "NUL \<notin> set xs \<Longrightarrow> c_string (xs @ NUL # ys) = xs"
  by (induction xs) (auto simp: c_string_def)

lemma c_string_self: "NUL \<notin> set xs \<Longrightarrow> c_string xs = xs"
  by (induction xs) (auto simp: c_string_def)

lemma c_string_prefix: "c_string (xs @ ys) = (if NUL \<in> set xs then c_string xs else xs @ c_string ys)"
  by (induction xs) (auto simp: c_string_def)

lemma c_string_length: "length (c_string xs) \<le> length xs"
  by (simp add: c_string_def length_takeWhile_le)

lemma c_string_subset: "set (c_string xs) \<subseteq> set xs"
  unfolding c_string_def by (auto dest: set_takeWhileD)

text \<open>The byte before the terminator of a buffer that holds no line feed is not one.\<close>

lemma last_byte_not_LF:
  assumes "LF \<notin> set xs" "0 < strlen (xs @ [NUL])"
  shows "(xs @ [NUL]) ! (strlen (xs @ [NUL]) - 1) \<noteq> LF"
proof -
  have len: "strlen (xs @ [NUL]) \<le> length xs"
    by (simp add: strlen_def c_string_terminated c_string_length)
  with assms(2) have lt: "strlen (xs @ [NUL]) - 1 < length xs" by arith
  then have "(xs @ [NUL]) ! (strlen (xs @ [NUL]) - 1) = xs ! (strlen (xs @ [NUL]) - 1)"
    by (simp only: nth_append if_True)
  moreover from lt have "xs ! (strlen (xs @ [NUL]) - 1) \<in> set xs" by (rule nth_mem)
  ultimately show ?thesis using assms(1) by metis
qed

lemma tolower_NUL: "tolower c = NUL \<longleftrightarrow> c = NUL"
proof -
  have "char_of (k + 32) \<noteq> NUL" if "65 \<le> k" "k \<le> 90" for k :: nat
  proof
    assume "char_of (k + 32) = NUL"
    then have "(of_char (char_of (k + 32)) :: nat) = of_char NUL" by (rule arg_cong)
    then have "(k + 32) mod 256 = 0" by simp
    with that show False by presburger
  qed
  then show ?thesis by (auto simp: tolower_def Let_def)
qed

lemma map_tolower_no_NUL: "NUL \<notin> set xs \<Longrightarrow> NUL \<notin> set (map tolower xs)"
  by (metis imageE list.set_map tolower_NUL)

lemma strlen_no_NUL: "NUL \<notin> set xs \<Longrightarrow> strlen (xs @ NUL # ys) = length xs"
  by (simp add: strlen_def c_string_no_NUL)

lemma fgets_trimmed_short_line:
  assumes "LF \<notin> set line" "NUL \<notin> set line" "length line < k"
  shows "fgets_trimmed (Suc k) (line @ LF # rest) = Some (line @ [NUL, NUL], length line + 1, rest)"
proof -
  have len: "strlen ((line @ [LF]) @ [NUL]) = length line + 1"
    using strlen_no_NUL [of "line @ [LF]" "[]"] assms(2) by simp
  have upd: "((line @ [LF]) @ [NUL])[length line := NUL] = line @ [NUL, NUL]"
    by (simp add: list_update_append)
  have nth: "((line @ [LF]) @ [NUL]) ! length line = LF"
    by (simp add: nth_append)
  show ?thesis
    unfolding fgets_trimmed_def fgets_def
    using assms(3) upd nth
    by (simp add: fgets_read_line [OF assms(1)] len del: append_assoc append.simps)
qed

lemma fgets_trimmed_long_line:
  assumes "LF \<notin> set line" "k \<le> length line"
  shows "fgets_trimmed (Suc k) (line @ LF # rest) =
           Some (take k line @ [NUL], strlen (take k line @ [NUL]), rest)"
proof -
  have noLF: "LF \<notin> set (take k line)" "LF \<notin> set (drop k line)"
    using assms(1) by (auto dest: in_set_takeD in_set_dropD)
  show ?thesis
    unfolding fgets_trimmed_def fgets_def
    using assms(2) last_byte_not_LF [OF noLF(1)]
    by (auto simp add: fgets_read_line [OF assms(1)] Let_def clearInputBuffer_line [OF noLF(2)])
qed

lemma fgets_trimmed_NUL_line:
  assumes "LF \<notin> set line" "NUL \<in> set line" "length line < k"
  shows "fgets_trimmed (Suc k) (line @ LF # rest) =
           Some (line @ [LF, NUL], strlen line, clearInputBuffer rest)"
proof -
  have cs: "c_string ((line @ [LF]) @ [NUL]) = c_string line"
    using assms(2) by (simp add: c_string_prefix)
  then have len: "strlen ((line @ [LF]) @ [NUL]) = strlen line" by (simp add: strlen_def)
  have "0 < length (dropWhile (\<lambda>c. c \<noteq> NUL) line)"
    using assms(2) by (auto simp: dropWhile_eq_Nil_conv)
  moreover have "length (takeWhile (\<lambda>c. c \<noteq> NUL) line)
      + length (dropWhile (\<lambda>c. c \<noteq> NUL) line) = length line"
    by (metis length_append takeWhile_dropWhile_id)
  ultimately have "length (takeWhile (\<lambda>c. c \<noteq> NUL) line) < length line"
    by linarith
  then have "strlen line < length line"
    by (simp add: strlen_def c_string_def)
  then have nth: "0 < strlen line \<Longrightarrow> ((line @ [LF]) @ [NUL]) ! (strlen line - 1) \<noteq> LF"
    using assms(1) by (metis One_nat_def Suc_pred append_assoc less_SucI nth_append nth_mem Suc_less_eq)
  show ?thesis
    unfolding fgets_trimmed_def fgets_def
    using assms(3) nth
    by (auto simp add: fgets_read_line [OF assms(1)] len Let_def simp del: append_assoc append.simps)
qed

lemma fgets_trimmed_eof_line:
  assumes "LF \<notin> set line" "line \<noteq> []"
  shows "fgets_trimmed (Suc k) line = Some (take k line @ [NUL], strlen (take k line @ [NUL]), [])"
proof -
  have noLF: "LF \<notin> set (take k line)" "LF \<notin> set (drop k line)"
    using assms(1) by (auto dest: in_set_takeD in_set_dropD)
  show ?thesis
    unfolding fgets_trimmed_def fgets_def
    using assms(2) last_byte_not_LF [OF noLF(1)]
    by (auto simp add: fgets_read_eof [OF assms(1)] Let_def clearInputBuffer_eof [OF noLF(2)])
qed

lemma choice_attempt_line:
  assumes "LF \<notin> set line" "NUL \<notin> set line"
  shows "choice_attempt (line @ LF # rest) = Some (choice_of_word (map tolower (take 8 line)), rest)"
proof -
  have nine: "MAX_CHOICE_INPUT_LENGTH = Suc 8" by simp
  have lit: "c_string ''stone'' = ''stone''" "c_string ''paper'' = ''paper''"
    "c_string ''scissors'' = ''scissors''"
    by (simp_all add: c_string_def)
  show ?thesis
  proof (cases "length line < 8")
    case True
    then have tk: "take 8 line = line" by simp
    have "NUL \<notin> set (map tolower line)" using assms(2) by (rule map_tolower_no_NUL)
    then have cs: "c_string (map tolower line @ [NUL, NUL]) = map tolower line"
      by (rule c_string_no_NUL)
    have tl: "tolower NUL = NUL" by (simp add: tolower_NUL)
    from fgets_trimmed_short_line [OF assms True] show ?thesis
      unfolding choice_attempt_def nine
      using True cs
      by (simp add: Let_def strcmp_eq_def lit choice_of_word_def tl tk)
  next
    case False
    then have ge: "8 \<le> length line" by simp
    have nn: "NUL \<notin> set (take 8 line)" using assms(2) by (auto dest: in_set_takeD)
    then have "NUL \<notin> set (map tolower (take 8 line))" by (rule map_tolower_no_NUL)
    then have cs: "c_string (map tolower (take 8 line) @ [NUL]) = map tolower (take 8 line)"
      by (rule c_string_no_NUL)
    have len: "strlen (take 8 line @ [NUL]) = 8"
      using strlen_no_NUL [OF nn, of "[]"] ge by simp
    from fgets_trimmed_long_line [OF assms(1) ge] show ?thesis
      unfolding choice_attempt_def nine
      using ge cs
      by (simp add: Let_def strcmp_eq_def lit choice_of_word_def len)
  qed
qed

section \<open>Arithmetic of the best-of count\<close>

lemma sint_succ:
  fixes b :: "32 word"
  assumes "sint b < 2147483647"
  shows "sint (b + 1) = sint b + 1"
proof -
  have "- (2 ^ 31) \<le> sint b" using sint_ge [of b] by simp
  with assms have "signed_take_bit 31 (sint b + 1) = sint b + 1"
    by (intro signed_take_bit_int_eq_self) simp_all
  then show ?thesis by (simp add: sint_word_ariths)
qed

lemma rejected_iff: "rejected b \<longleftrightarrow> \<not> (0 < sint b \<and> odd (sint b))"
proof (cases "0 \<le> sint b")
  case True
  then have "sint b smod 2 = sint b mod 2" by (simp add: smod_mod_positive)
  with True show ?thesis unfolding rejected_def by (auto simp: odd_iff_mod_2_eq_one)
next
  case False
  then show ?thesis by (simp add: rejected_def)
qed

lemma sint_eq_max:
  fixes b :: "32 word"
  shows "sint b = 2147483647 \<longleftrightarrow> b = 2147483647"
proof
  assume "sint b = 2147483647"
  then have "sint b = sint (2147483647 :: 32 word)" by simp
  then show "b = 2147483647" by (rule signed_word_eqI)
qed simp

lemma wins_for_accepted:
  assumes "\<not> rejected bestOf" "bestOf \<noteq> 2147483647"
  shows "wins_for bestOf = (sint bestOf + 1) div 2" "1 \<le> wins_for bestOf"
    "2 * wins_for bestOf - 1 = sint bestOf"
proof -
  from assms(1) have pos: "0 < sint bestOf" and odd: "odd (sint bestOf)"
    by (simp_all add: rejected_iff)
  have "sint bestOf < 2 ^ 31" using sint_lt [of bestOf] by simp
  with assms(2) have "sint bestOf < 2147483647" using sint_eq_max [of bestOf] by simp
  then have "sint (bestOf + 1) = sint bestOf + 1" by (rule sint_succ)
  with pos show w: "wins_for bestOf = (sint bestOf + 1) div 2"
    by (simp add: wins_for_def signed_divide_int_def)
  from pos w show "1 \<le> wins_for bestOf" by simp
  from odd w show "2 * wins_for bestOf - 1 = sint bestOf" by (auto elim!: oddE)
qed

lemma wins_for_max: "wins_for 2147483647 = - 1073741824"
  by (simp add: wins_for_def signed_divide_int_def)

lemma wins_for_examples: "wins_for 3 = 2" "wins_for 7 = 4" "rejected 4" "rejected (- 1)" "\<not> rejected 3" "\<not> rejected 7"
  by (simp_all add: wins_for_def rejected_def signed_divide_int_def signed_modulo_int_def)

section \<open>Reading a choice, line by line\<close>

lemma getPlayerChoice_accepts:
  assumes "choice_attempt inp = Some (Some v, rest)"
  shows "getPlayerChoice inp = ([Printf ''Stone, Paper or Scissors: ''], Returned v rest)"
  by (simp add: getPlayerChoice_def assms)

lemma getPlayerChoice_from_rejects:
  assumes "choice_attempt inp = Some (None, rest)" "i < MAX_CHOICE_ATTEMPTS"
  shows "getPlayerChoice_from i inp =
           (Printf ''Stone, Paper or Scissors: '' # Printf (''Invalid Choice...'' @ [LF])
              # fst (getPlayerChoice_from (i + 1) rest),
            snd (getPlayerChoice_from (i + 1) rest))"
  using assms by (subst getPlayerChoice_from.simps) (simp add: case_prod_beta)

lemma getPlayerChoice_from_exhausted:
  assumes "MAX_CHOICE_ATTEMPTS \<le> i"
  shows "getPlayerChoice_from i inp = ([Printf (''Too many invalid inputs...'' @ [LF])], Exited 1)"
  using assms by (subst getPlayerChoice_from.simps) simp

text \<open>Five attempts in a row that match none of the three words end the process.\<close>

lemma getPlayerChoice_five_rejected:
  assumes "choice_attempt i0 = Some (None, i1)" "choice_attempt i1 = Some (None, i2)"
    "choice_attempt i2 = Some (None, i3)" "choice_attempt i3 = Some (None, i4)"
    "choice_attempt i4 = Some (None, i5)"
  shows "snd (getPlayerChoice i0) = Exited 1"
    and "last (fst (getPlayerChoice i0)) = Printf (''Too many invalid inputs...'' @ [LF])"
  unfolding getPlayerChoice_def
  by (simp_all add: getPlayerChoice_from_rejects [OF assms(1)] getPlayerChoice_from_rejects [OF assms(2)]
        getPlayerChoice_from_rejects [OF assms(3)] getPlayerChoice_from_rejects [OF assms(4)]
        getPlayerChoice_from_rejects [OF assms(5)] getPlayerChoice_from_exhausted
        del: getPlayerChoice_from.simps)

lemma match_loop_too_many_invalid:
  assumes "playerWins s < wins_needed s \<and> computerWins s < wins_needed s"
    and "choice_attempt i0 = Some (None, i1)" "choice_attempt i1 = Some (None, i2)"
    "choice_attempt i2 = Some (None, i3)" "choice_attempt i3 = Some (None, i4)"
    "choice_attempt i4 = Some (None, i5)"
  shows "run_end (match_loop rand child playerName k s i0) = Exit_called 1"
    and "run_state (match_loop rand child playerName k s i0) = s"
proof -
  obtain es where "getPlayerChoice i0 = (es, Exited 1)"
    using getPlayerChoice_five_rejected(1) [OF assms(2-6)] by (cases "getPlayerChoice i0") auto
  from match_loop_exit [OF assms(1) this]
  show "run_end (match_loop rand child playerName k s i0) = Exit_called 1"
    and "run_state (match_loop rand child playerName k s i0) = s"
    by simp_all
qed

text \<open>
  A line that holds neither NUL nor a line feed is accepted by the word its first eight
  characters spell in lower case, so a line of at most eight characters is accepted
  exactly when it spells one of the three words.
\<close>

lemma getPlayerChoice_line:
  assumes "LF \<notin> set line" "NUL \<notin> set line"
    and "choice_of_word (map tolower (take 8 line)) = Some v"
  shows "getPlayerChoice (line @ LF # rest) = ([Printf ''Stone, Paper or Scissors: ''], Returned v rest)"
  using choice_attempt_line [OF assms(1,2), of rest] assms(3)
  by (simp add: getPlayerChoice_accepts)

lemma getPlayerChoice_case_insensitive:
  "getPlayerChoice (''STONE'' @ LF # rest) = ([Printf ''Stone, Paper or Scissors: ''], Returned 1 rest)"
  "getPlayerChoice (''Stone'' @ LF # rest) = ([Printf ''Stone, Paper or Scissors: ''], Returned 1 rest)"
  "getPlayerChoice (''sToNe'' @ LF # rest) = ([Printf ''Stone, Paper or Scissors: ''], Returned 1 rest)"
  by (rule getPlayerChoice_line, simp, simp, code_simp)+

lemma choice_attempt_range:
  "choice_attempt inp = Some (Some v, rest) \<Longrightarrow> v \<in> {1, 2, 3}"
  by (auto simp: choice_attempt_def Let_def split: option.splits if_splits)

lemma randomNumber_range: "randomNumber 1 3 r \<in> {1, 2, 3}"
proof -
  have "int r smod 3 = int r mod 3" by (simp add: smod_mod_positive)
  moreover have "0 \<le> int r mod 3" "int r mod 3 < 3" by simp_all
  ultimately show ?thesis unfolding randomNumber_def by (simp; presburger)
qed

text \<open>The three ways \<open>main\<close> goes on after reading the best-of count.\<close>

lemma main_invalid_input:
  assumes "read_playerName inp = Some (playerName, inp1)" "scanf_i inp1 = (scanResult, bestOf, inp2)"
    and "scanResult \<noteq> 1"
  shows "main scanf_i rand child inp =
           (Main_returned 1,
            [Printf ''Player name: '', Printf ''Best of: '', Printf (''Invalid input...'' @ [LF, LF])])"
  using assms by (simp add: main_def)

lemma main_not_positive_odd:
  assumes "read_playerName inp = Some (playerName, inp1)" "scanf_i inp1 = (1, bestOf, inp2)"
    and "\<not> (0 < sint bestOf \<and> odd (sint bestOf))"
  shows "main scanf_i rand child inp =
           (Main_returned 1,
            [Printf ''Player name: '', Printf ''Best of: '',
             Printf (''Only positive odd integers are valid...'' @ [LF, LF])])"
  using assms by (simp add: main_def rejected_iff)

lemma main_positive_odd:
  assumes "read_playerName inp = Some (playerName, inp1)" "scanf_i inp1 = (1, bestOf, inp2)"
    and "0 < sint bestOf \<and> odd (sint bestOf)"
  shows "fst (main scanf_i rand child inp) =
           run_end (match_loop rand child playerName 0
             \<lparr>playerWins = 0, computerWins = 0, wins_needed = wins_for bestOf\<rparr> (clearInputBuffer inp2))"
  using assms by (simp add: main_def rejected_iff Let_def)

text \<open>
  Five lines in a row, none of which spells one of the three words in its first eight
  characters, use up the five attempts.
\<close>

lemma getPlayerChoice_five_invalid_lines:
  assumes "\<forall>l \<in> set [l1, l2, l3, l4, l5].
             LF \<notin> set l \<and> NUL \<notin> set l \<and> choice_of_word (map tolower (take 8 l)) = None"
  shows "snd (getPlayerChoice (l1 @ LF # l2 @ LF # l3 @ LF # l4 @ LF # l5 @ LF # rest)) = Exited 1"
proof -
  have "choice_attempt (l @ LF # r) = Some (None, r)" if "l \<in> set [l1, l2, l3, l4, l5]" for l r
    using assms that choice_attempt_line [of l r] by auto
  then show ?thesis
    by (intro getPlayerChoice_five_rejected(1)
          [of _ "l2 @ LF # l3 @ LF # l4 @ LF # l5 @ LF # rest" "l3 @ LF # l4 @ LF # l5 @ LF # rest"
              "l4 @ LF # l5 @ LF # rest" "l5 @ LF # rest" rest]) simp_all
qed

lemma getPlayerChoice_eof:
  "getPlayerChoice [] = ([Printf ''Stone, Paper or Scissors: ''], Indeterminate)"
  by code_simp

lemma tie_round:
  "play_round 1 (randomNumber 1 3 0) s = s" "fst (resolve 1 (randomNumber 1 3 0)) = (stone, stone)"
  by (simp_all add: play_round_def resolve_def randomNumber_def)

text \<open>
  While both counters are below the number of wins needed, rounds that tie can go on for
  any number of lines: \<open>m\<close> lines "stone" against a computer that always draws Stone
  are \<open>m\<close> rounds, none of them decisive.
\<close>

lemma tied_rounds_unbounded:
  assumes "playerWins s < wins_needed s \<and> computerWins s < wins_needed s"
  shows "rounds (run_trace (match_loop (\<lambda>k. 0) child playerName k s
            (concat (replicate m (''stone'' @ [LF]))))) = m \<and>
         decisive_rounds (run_trace (match_loop (\<lambda>k. 0) child playerName k s
            (concat (replicate m (''stone'' @ [LF]))))) = 0"
proof (induction m arbitrary: k)
  case 0
  show ?case
    using match_loop_indeterminate [OF assms getPlayerChoice_eof, of "\<lambda>k. 0" child playerName k]
    by (simp add: rounds_def decisive_rounds_def)
next
  case (Suc m)
  have g: "getPlayerChoice (''stone'' @ LF # concat (replicate m (''stone'' @ [LF])))
      = ([Printf ''Stone, Paper or Scissors: ''], Returned 1 (concat (replicate m (''stone'' @ [LF]))))"
    by (rule getPlayerChoice_line, simp, simp, code_simp)
  have s': "s = play_round 1 (randomNumber 1 3 ((\<lambda>k. 0 :: nat) k)) s" by (simp add: tie_round)
  have c: "playerWins s \<noteq> wins_needed s \<and> computerWins s \<noteq> wins_needed s" using assms by auto
  from match_loop_continue [where rand = "\<lambda>k. 0" and k = k, OF assms g s' c, of child playerName]
    Suc.IH [of "k + 1"]
  show ?case by (simp add: rounds_def decisive_rounds_def tie_round)
qed

section \<open>The claims\<close>

text \<open>
  C1. For every pair of moves the decision chain of the round yields a tie exactly when
  the two moves are equal; otherwise exactly one of the player and the computer wins,
  following the standard rule (Stone beats Scissors, Scissors beats Paper, Paper beats
  Stone); and the player wins a pair exactly when the computer wins the swapped pair.
\<close>

theorem resolve_standard_rule:
  "(snd (resolve (choice_of m1) (choice_of m2)) = Tie \<longleftrightarrow> m1 = m2) \<and>
   (snd (resolve (choice_of m1) (choice_of m2)) = PlayerWin \<longleftrightarrow> standard_rule_beats m1 m2) \<and>
   (snd (resolve (choice_of m1) (choice_of m2)) = ComputerWin \<longleftrightarrow> standard_rule_beats m2 m1) \<and>
   (m1 \<noteq> m2 \<longrightarrow>
      (snd (resolve (choice_of m1) (choice_of m2)) = PlayerWin) \<noteq>
      (snd (resolve (choice_of m1) (choice_of m2)) = ComputerWin)) \<and>
   (snd (resolve (choice_of m1) (choice_of m2)) = PlayerWin \<longleftrightarrow>
      snd (resolve (choice_of m2) (choice_of m1)) = ComputerWin)"
  by (cases m1; cases m2) (simp_all add: resolve_def)

text \<open>
  C1 at Stone against Scissors, and at Paper against Paper.
\<close>

theorem resolve_standard_rule_witness:
  "Stone \<noteq> Scissors \<and> snd (resolve 1 3) = PlayerWin \<and> snd (resolve 3 1) = ComputerWin \<and>
   snd (resolve 1 3) \<noteq> ComputerWin \<and> snd (resolve 2 2) = Tie"
  using resolve_standard_rule [of Stone Scissors] resolve_standard_rule [of Paper Paper]
  by auto

text \<open>
  C2. The best-of count is accepted exactly when it is a positive odd integer
  (\<open>rejected_iff\<close>); a failed parse ends the program with status 1 after "Invalid input..."
  (\<open>main_invalid_input\<close>), an even or negative value with status 1 after "Only positive
  odd integers are valid..." (\<open>main_not_positive_odd\<close>); and for every accepted value
  but one the number of wins required is \<open>(bestOf + 1) / 2\<close> (\<open>wins_for_accepted\<close>,
  with 3 giving 2 and 7 giving 4 in \<open>wins_for_examples\<close>). The exception is the largest
  \<open>int\<close>: 2147483647 is positive and odd, so it is accepted, but \<open>bestOf + 1\<close>
  overflows, the number of wins required comes out negative, and the program returns 0
  without playing a round.
\<close>

theorem best_of_int_max_plays_no_round:
  "\<not> rejected 2147483647 \<and> wins_for 2147483647 = - 1073741824 \<and>
   main (scanf_number 2147483647) ((!) [2]) (Child_exited 0)
     (''bob'' @ LF # ''2147483647'' @ LF # ''stone'' @ [LF])
   = (Main_returned 0, [Printf ''Player name: '', Printf ''Best of: ''])"
  by code_simp

text \<open>
  C3. In every run of the match loop that starts from no wins with \<open>n \<ge> 1\<close> wins
  needed, the two counters are never both equal to \<open>n\<close>, and the loop has ended
  (\<open>main\<close> has returned, rather than the process being ended inside
  \<open>getPlayerChoice\<close> or the input running out) exactly when one of the counters has
  reached \<open>n\<close>.
\<close>

theorem match_ends_with_one_winner:
  assumes "1 \<le> n"
  shows "\<not> (playerWins (run_state (match_loop rand child playerName 0
               \<lparr>playerWins = 0, computerWins = 0, wins_needed = n\<rparr> inp)) = n \<and>
            computerWins (run_state (match_loop rand child playerName 0
               \<lparr>playerWins = 0, computerWins = 0, wins_needed = n\<rparr> inp)) = n) \<and>
     ((\<exists>c. run_end (match_loop rand child playerName 0
               \<lparr>playerWins = 0, computerWins = 0, wins_needed = n\<rparr> inp) = Main_returned c) \<longleftrightarrow>
        (playerWins (run_state (match_loop rand child playerName 0
               \<lparr>playerWins = 0, computerWins = 0, wins_needed = n\<rparr> inp)) = n \<or>
         computerWins (run_state (match_loop rand child playerName 0
               \<lparr>playerWins = 0, computerWins = 0, wins_needed = n\<rparr> inp)) = n))"
  using assms
    match_loop_invariant [of "\<lparr>playerWins = 0, computerWins = 0, wins_needed = n\<rparr>" rand child playerName 0 inp]
  by simp

text \<open>
  C3 at \<open>n = 2\<close>: a win, a tie and a second win for the player.
\<close>

theorem match_ends_with_one_winner_witness:
  "(1 :: int) \<le> 2 \<and>
   run_state (match_loop ((!) [2, 0, 2]) (Child_exited 0) ''bob'' 0
       \<lparr>playerWins = 0, computerWins = 0, wins_needed = 2\<rparr>
       (''stone'' @ LF # ''stone'' @ LF # ''stone'' @ [LF]))
     = \<lparr>playerWins = 2, computerWins = 0, wins_needed = 2\<rparr> \<and>
   (\<exists>c. run_end (match_loop ((!) [2, 0, 2]) (Child_exited 0) ''bob'' 0
       \<lparr>playerWins = 0, computerWins = 0, wins_needed = 2\<rparr>
       (''stone'' @ LF # ''stone'' @ LF # ''stone'' @ [LF])) = Main_returned c)"
proof -
  have n: "(1 :: int) \<le> 2" by simp
  have st: "run_state (match_loop ((!) [2, 0, 2]) (Child_exited 0) ''bob'' 0
       \<lparr>playerWins = 0, computerWins = 0, wins_needed = 2\<rparr>
       (''stone'' @ LF # ''stone'' @ LF # ''stone'' @ [LF]))
     = \<lparr>playerWins = 2, computerWins = 0, wins_needed = 2\<rparr>"
    by code_simp
  from match_ends_with_one_winner [OF n, of "(!) [2, 0, 2]" "Child_exited 0" "''bob''"
      "''stone'' @ LF # ''stone'' @ LF # ''stone'' @ [LF]"] n st
  show ?thesis by simp
qed

text \<open>
  C4. The move reader accepts a line by the word its first eight characters spell in
  lower case (\<open>choice_attempt_line\<close>), so "STONE", "Stone" and "sToNe" give Stone
  (\<open>getPlayerChoice_case_insensitive\<close>). The buffer of nine bytes holds eight
  characters, the length of "scissors" itself, and what does not fit is discarded before
  the comparison: the line "scissorsx", which is not the word "scissors" in any case, is
  accepted as Scissors instead of being answered with "Invalid Choice...".
\<close>

theorem getPlayerChoice_overlong_scissors:
  "getPlayerChoice (''scissorsx'' @ [LF]) = ([Printf ''Stone, Paper or Scissors: ''], Returned 3 []) \<and>
   map tolower ''scissorsx'' \<noteq> ''scissors''"
  by code_simp

text \<open>
  C5. Five attempts in a row that the reader rejects end the process with status 1 after
  "Too many invalid inputs..." and leave the counters as they were
  (\<open>getPlayerChoice_five_invalid_lines\<close>, \<open>match_loop_too_many_invalid\<close>). But the
  reader does not reject every invalid line: of five lines "scissorsx" the first is
  accepted as Scissors, and against a computer that draws Stone the round is scored and
  the program returns 0.
\<close>

theorem five_overlong_lines_score_a_round:
  "getPlayerChoice (concat (replicate 5 (''scissorsx'' @ [LF])))
     = ([Printf ''Stone, Paper or Scissors: ''], Returned 3 (concat (replicate 4 (''scissorsx'' @ [LF])))) \<and>
   choice_of_word (map tolower ''scissorsx'') = None \<and>
   run_end (match_loop ((!) [0]) (Child_exited 0) ''bob'' 0
          \<lparr>playerWins = 0, computerWins = 0, wins_needed = 1\<rparr>
          (concat (replicate 5 (''scissorsx'' @ [LF])))) = Main_returned 0 \<and>
   computerWins (run_state (match_loop ((!) [0]) (Child_exited 0) ''bob'' 0
          \<lparr>playerWins = 0, computerWins = 0, wins_needed = 1\<rparr>
          (concat (replicate 5 (''scissorsx'' @ [LF]))))) = 1"
  by code_simp



text \<open>
  C7 as stated, that a match of best-of \<open>N\<close> has at most \<open>N\<close> rounds, fails: a
  round that ties scores nothing and is followed by another. Best-of-one with a tie and
  then a win is played in two rounds.
\<close>

theorem best_of_one_played_in_two_rounds:
  "\<not> rejected 1 \<and>
   fst (main (scanf_number 1) ((!) [0, 2]) (Child_exited 0)
          (''bob'' @ LF # ''1'' @ LF # ''stone'' @ LF # ''stone'' @ [LF])) = Main_returned 0 \<and>
   \<not> int (rounds (snd (main (scanf_number 1) ((!) [0, 2]) (Child_exited 0)
          (''bob'' @ LF # ''1'' @ LF # ''stone'' @ LF # ''stone'' @ [LF])))) \<le> sint (1 :: 32 word)"
  by code_simp

text \<open>
  C7, amended. For every accepted best-of value \<open>N\<close> and every sequence of player and
  computer moves, at most \<open>N\<close> rounds of the match are decisive (the two moves
  differ).
\<close>

theorem decisive_rounds_at_most_best_of:
  assumes "\<not> rejected bestOf"
  shows "int (decisive_rounds (run_trace (match_loop rand child playerName 0
            \<lparr>playerWins = 0, computerWins = 0, wins_needed = wins_for bestOf\<rparr> inp)))
         \<le> sint bestOf"
proof -
  define s where "s = \<lparr>playerWins = 0, computerWins = 0, wins_needed = wins_for bestOf\<rparr>"
  define r where "r = match_loop rand child playerName 0 s inp"
  have d: "int (decisive_rounds (run_trace r)) = playerWins (run_state r) + computerWins (run_state r)"
    using match_loop_decisive [of rand child playerName 0 s inp] by (simp add: r_def s_def)
  from assms have pos: "0 < sint bestOf" by (simp add: rejected_iff)
  show ?thesis
  proof (cases "1 \<le> wins_for bestOf")
    case True
    then have "bestOf \<noteq> 2147483647" using wins_for_max by auto
    with assms have n: "2 * wins_for bestOf - 1 = sint bestOf" by (rule wins_for_accepted)
    from True have "playerWins (run_state r) \<le> wins_for bestOf \<and>
        computerWins (run_state r) \<le> wins_for bestOf \<and>
        \<not> (playerWins (run_state r) = wins_for bestOf \<and> computerWins (run_state r) = wins_for bestOf)"
      using match_loop_invariant [of s rand child playerName 0 inp] by (simp add: r_def s_def)
    with n d show ?thesis unfolding r_def s_def by linarith
  next
    case False
    then have "r = \<lparr>run_end = Main_returned 0, run_trace = [], run_state = s\<rparr>"
      unfolding r_def by (intro match_loop_stop) (simp add: s_def)
    with pos show ?thesis unfolding r_def s_def by (simp add: decisive_rounds_def)
  qed
qed

text \<open>
  C7, amended, at best-of-one with a tie and then a win: one decisive round.
\<close>

theorem decisive_rounds_at_most_best_of_witness:
  "\<not> rejected 1 \<and>
   decisive_rounds (run_trace (match_loop ((!) [0, 2]) (Child_exited 0) ''bob'' 0
            \<lparr>playerWins = 0, computerWins = 0, wins_needed = wins_for 1\<rparr>
            (''stone'' @ LF # ''stone'' @ [LF]))) = 1 \<and>
   int (decisive_rounds (run_trace (match_loop ((!) [0, 2]) (Child_exited 0) ''bob'' 0
            \<lparr>playerWins = 0, computerWins = 0, wins_needed = wins_for 1\<rparr>
            (''stone'' @ LF # ''stone'' @ [LF])))) \<le> sint (1 :: 32 word)"
proof -
  have h: "\<not> rejected 1" by code_simp
  have v: "decisive_rounds (run_trace (match_loop ((!) [0, 2]) (Child_exited 0) ''bob'' 0
            \<lparr>playerWins = 0, computerWins = 0, wins_needed = wins_for 1\<rparr>
            (''stone'' @ LF # ''stone'' @ [LF]))) = 1"
    by code_simp
  from decisive_rounds_at_most_best_of [OF h, of "(!) [0, 2]" "Child_exited 0" "''bob''"
      "''stone'' @ LF # ''stone'' @ [LF]"] h v
  show ?thesis by blast
qed



text \<open>
  C9. A round leaves \<open>wins_needed\<close> as it was; on a tie it leaves the whole state as
  it was; when the player's move beats the computer's it adds one to \<open>playerWins\<close> and
  leaves \<open>computerWins\<close>, and the other way round when the computer's move beats the
  player's; of two different moves exactly one beats the other. The whole loop ends with
  the \<open>wins_needed\<close> it started with.
\<close>

theorem round_increments_one_counter:
  "wins_needed (play_round (choice_of m1) (choice_of m2) s) = wins_needed s \<and>
   (m1 = m2 \<longrightarrow> play_round (choice_of m1) (choice_of m2) s = s) \<and>
   (standard_rule_beats m1 m2 \<longrightarrow>
      playerWins (play_round (choice_of m1) (choice_of m2) s) = playerWins s + 1 \<and>
      computerWins (play_round (choice_of m1) (choice_of m2) s) = computerWins s) \<and>
   (standard_rule_beats m2 m1 \<longrightarrow>
      playerWins (play_round (choice_of m1) (choice_of m2) s) = playerWins s \<and>
      computerWins (play_round (choice_of m1) (choice_of m2) s) = computerWins s + 1) \<and>
   (m1 \<noteq> m2 \<longrightarrow> standard_rule_beats m1 m2 \<noteq> standard_rule_beats m2 m1) \<and>
   wins_needed (run_state (match_loop rand child playerName k s inp)) = wins_needed s"
proof -
  have "wins_needed (run_state (match_loop rand child playerName k s inp)) = wins_needed s"
    by (rule match_loop_wins_needed)
  moreover have "wins_needed (play_round (choice_of m1) (choice_of m2) s) = wins_needed s \<and>
   (m1 = m2 \<longrightarrow> play_round (choice_of m1) (choice_of m2) s = s) \<and>
   (standard_rule_beats m1 m2 \<longrightarrow>
      playerWins (play_round (choice_of m1) (choice_of m2) s) = playerWins s + 1 \<and>
      computerWins (play_round (choice_of m1) (choice_of m2) s) = computerWins s) \<and>
   (standard_rule_beats m2 m1 \<longrightarrow>
      playerWins (play_round (choice_of m1) (choice_of m2) s) = playerWins s \<and>
      computerWins (play_round (choice_of m1) (choice_of m2) s) = computerWins s + 1) \<and>
   (m1 \<noteq> m2 \<longrightarrow> standard_rule_beats m1 m2 \<noteq> standard_rule_beats m2 m1)"
    by (cases m1; cases m2) (simp_all add: play_round_def resolve_def)
  ultimately show ?thesis by blast
qed

text \<open>
  C9 at Stone against Scissors and at Paper against Paper.
\<close>

theorem round_increments_one_counter_witness:
  "standard_rule_beats Stone Scissors \<and> Stone \<noteq> Scissors \<and>
   play_round 1 3 \<lparr>playerWins = 1, computerWins = 2, wins_needed = 3\<rparr>
     = \<lparr>playerWins = 2, computerWins = 2, wins_needed = 3\<rparr> \<and>
   play_round 2 2 \<lparr>playerWins = 1, computerWins = 2, wins_needed = 3\<rparr>
     = \<lparr>playerWins = 1, computerWins = 2, wins_needed = 3\<rparr>"
  using round_increments_one_counter [of Stone Scissors "\<lparr>playerWins = 1, computerWins = 2, wins_needed = 3\<rparr>"]
    round_increments_one_counter [of Paper Paper "\<lparr>playerWins = 1, computerWins = 2, wins_needed = 3\<rparr>"]
  by (simp add: play_round_def resolve_def)

text \<open>
  C10. For an input line (up to a line feed, or up to the end of the input) the stored
  name is the string held by the first 19 characters of the line: at most 19 characters,
  without the line feed, and those 19 characters themselves when the line holds no NUL.
  When the line has 19 characters or more, or holds no NUL, the input that remains
  starts after the line feed of the line. (A shorter line that holds a NUL is cut at
  the NUL, and the line after it is discarded as well.) An empty line gives the empty
  name.
\<close>

theorem playerName_truncated_and_input_cleared:
  assumes "LF \<notin> set line"
  shows "read_playerName (line @ LF # rest) =
           Some (c_string (take 19 line),
                 if length line < 19 \<and> NUL \<in> set line then clearInputBuffer rest else rest) \<and>
         (line \<noteq> [] \<longrightarrow> read_playerName line = Some (c_string (take 19 line), [])) \<and>
         length (c_string (take 19 line)) \<le> 19 \<and>
         LF \<notin> set (c_string (take 19 line)) \<and>
         (NUL \<notin> set line \<longrightarrow> c_string (take 19 line) = take 19 line)"
proof -
  have twenty: "MAX_PLAYER_NAME = Suc 19" by simp
  have a: "read_playerName (line @ LF # rest) =
           Some (c_string (take 19 line),
                 if length line < 19 \<and> NUL \<in> set line then clearInputBuffer rest else rest)"
  proof (cases "length line < 19")
    case False
    then have "19 \<le> length line" by simp
    from fgets_trimmed_long_line [OF assms this] show ?thesis
      unfolding read_playerName_def twenty by (simp add: c_string_terminated False)
  next
    case True
    then have tk: "take 19 line = line" by simp
    show ?thesis
    proof (cases "NUL \<in> set line")
      case True
      from fgets_trimmed_NUL_line [OF assms True \<open>length line < 19\<close>] show ?thesis
        unfolding read_playerName_def twenty
        by (simp add: True \<open>length line < 19\<close> c_string_prefix tk)
    next
      case False
      from fgets_trimmed_short_line [OF assms False \<open>length line < 19\<close>] show ?thesis
        unfolding read_playerName_def twenty
        using c_string_no_NUL [OF False, of "[NUL]"]
        by (simp add: False \<open>length line < 19\<close> c_string_self tk)
    qed
  qed
  have b: "read_playerName line = Some (c_string (take 19 line), [])" if "line \<noteq> []"
    using fgets_trimmed_eof_line [OF assms that, of 19]
    unfolding read_playerName_def twenty by (simp add: c_string_terminated)
  have c: "length (c_string (take 19 line)) \<le> 19"
    using c_string_length [of "take 19 line"] by simp
  have d: "LF \<notin> set (c_string (take 19 line))"
    using c_string_subset [of "take 19 line"] assms by (auto dest: in_set_takeD)
  have e: "c_string (take 19 line) = take 19 line" if "NUL \<notin> set line"
    using that by (auto intro!: c_string_self dest: in_set_takeD)
  from a b c d e show ?thesis by blast
qed

text \<open>
  C10 at a line of 26 letters and at the empty line.
\<close>

theorem playerName_truncated_and_input_cleared_witness:
  "LF \<notin> set ''abcdefghijklmnopqrstuvwxyz'' \<and>
   read_playerName (''abcdefghijklmnopqrstuvwxyz'' @ LF # ''3'' @ [LF])
     = Some (''abcdefghijklmnopqrs'', ''3'' @ [LF]) \<and>
   LF \<notin> set [] \<and> read_playerName ([] @ LF # ''3'' @ [LF]) = Some ([], ''3'' @ [LF])"
  using playerName_truncated_and_input_cleared [of "''abcdefghijklmnopqrstuvwxyz''" "''3'' @ [LF]"]
    playerName_truncated_and_input_cleared [of "[]" "''3'' @ [LF]"]
  by (simp add: c_string_def)

end
